theory Spec2Isabelle
  imports Main "HOL-Library.Word"
begin

section \<open>Data model of the frame scheduler\<close>

text \<open>
  The scheduler header declares the usage record and three template helpers
  (\<open>InjectBarriers\<close>, \<open>CanExecuteParallel\<close>, \<open>UpdateResourceStates\<close>) with their
  bodies; \<open>ResourceHeap.cpp\<close> holds the heaps. Subresource indices are C++
  \<open>unsigned\<close> values, modelled as 32-bit words; buffer sizes are \<open>size_t\<close>, modelled
  as 64-bit words. A memory object is identified by the address of its underlying
  resource, a natural number.
\<close>

type_synonym u32 = "32 word"
type_synonym u64 = "64 word"
type_synonym MemoryObject = nat

datatype eResourceState =
    COMMON | COPY_SOURCE | COPY_DEST | RENDER_TARGET | DEPTH_READ | DEPTH_WRITE
  | SHADER_RESOURCE | UNORDERED_ACCESS | PRESENT

datatype eResourceBarrierSplit = NORMAL | BEGIN | END

text \<open>
  \<open>gxapi::ALL_SUBRESOURCES\<close> is declared outside the sources at hand; the upload
  heap writes the same token as the literal \<open>0xffffffff\<close>.
\<close>

definition ALL_SUBRESOURCES :: u32 where
  "ALL_SUBRESOURCES = 0xFFFFFFFF"

text \<open>
  The usage record read by the three template helpers: \<open>resource\<close>, \<open>subresource\<close>,
  \<open>firstState\<close> and \<open>multipleUse\<close> as in \<open>Scheduler::UsedResource\<close>, and the
  \<open>lastState\<close> that \<open>UpdateResourceStates\<close> reads through its iterator.
\<close>

record UsedResource =
  resource :: MemoryObject
  subresource :: u32
  firstState :: eResourceState
  lastState :: eResourceState
  multipleUse :: bool

record TransitionBarrier =
  barrierResource :: MemoryObject
  beforeState :: eResourceState
  afterState :: eResourceState
  subResource :: u32
  splitMode :: eResourceBarrierSplit

text \<open>
  Modelled from the spec: the class \<open>MemoryObject\<close> (\<open>ReadState\<close>, \<open>RecordState\<close>,
  \<open>GetNumSubresources\<close>, \<open>PtrLess\<close>, \<open>PtrGreater\<close>) is not among the sources. The
  shadow state it keeps is the spec's logical mapping from (resource identity,
  subresource index) to a resource state, together with the subresource count of each
  resource; the two pointer comparisons are the strict order on resource identities.
\<close>

record ResourceStateTable =
  states :: "MemoryObject \<times> u32 \<Rightarrow> eResourceState"
  numSubresources :: "MemoryObject \<Rightarrow> u32"

definition ReadState :: "ResourceStateTable \<Rightarrow> MemoryObject \<Rightarrow> u32 \<Rightarrow> eResourceState" where
  "ReadState S r k = states S (r, k)"

definition RecordState ::
  "ResourceStateTable \<Rightarrow> MemoryObject \<Rightarrow> u32 \<Rightarrow> eResourceState \<Rightarrow> ResourceStateTable" where
  "RecordState S r k v = S\<lparr>states := (states S)((r, k) := v)\<rparr>"

definition GetNumSubresources :: "ResourceStateTable \<Rightarrow> MemoryObject \<Rightarrow> u32" where
  "GetNumSubresources S r = numSubresources S r"

definition PtrLess :: "MemoryObject \<Rightarrow> MemoryObject \<Rightarrow> bool" where
  "PtrLess a b = (a < b)"

definition PtrGreater :: "MemoryObject \<Rightarrow> MemoryObject \<Rightarrow> bool" where
  "PtrGreater a b = (a > b)"

definition mkTransition ::
  "MemoryObject \<Rightarrow> eResourceState \<Rightarrow> eResourceState \<Rightarrow> u32 \<Rightarrow> TransitionBarrier" where
  "mkTransition r src dst k =
     \<lparr>barrierResource = r, beforeState = src, afterState = dst, subResource = k,
      splitMode = NORMAL\<rparr>"

section \<open>Scheduler::InjectBarriers\<close>

text \<open>
  The inner loop of the all-subresources branch:
  \<^verbatim>\<open>for (unsigned subresourceIdx = 0; subresourceIdx < resource.GetNumSubresources(); ++subresourceIdx)\<close>
  with the push onto \<open>barriers\<close> guarded by \<open>sourceState != targetState\<close>.
\<close>

function InjectBarriers_all ::
  "ResourceStateTable \<Rightarrow> MemoryObject \<Rightarrow> eResourceState \<Rightarrow> u32 \<Rightarrow>
   TransitionBarrier list \<Rightarrow> TransitionBarrier list" where
  "InjectBarriers_all S r targetState subresourceIdx barriers =
     (if subresourceIdx < GetNumSubresources S r then
        (let sourceState = ReadState S r subresourceIdx in
         InjectBarriers_all S r targetState (subresourceIdx + 1)
           (if sourceState \<noteq> targetState
            then barriers @ [mkTransition r sourceState targetState subresourceIdx]
            else barriers))
      else barriers)"
  by pat_completeness auto
termination
proof (relation "measure (\<lambda>(S, r, t, i, bs). unat (GetNumSubresources S r) - unat i)")
  show "wf (measure (\<lambda>(S, r, t, i, bs). unat (GetNumSubresources S r) - unat i))"
    by simp
next
  fix S :: ResourceStateTable and r :: MemoryObject and targetState :: eResourceState
    and subresourceIdx :: u32 and barriers :: "TransitionBarrier list"
    and x :: eResourceState
  assume lt: "subresourceIdx < GetNumSubresources S r"
  then have nz: "subresourceIdx + 1 \<noteq> 0"
    by (metis eq_neg_iff_add_eq_0 word_order.extremum_strict)
  have "unat (subresourceIdx + 1) = Suc (unat subresourceIdx)"
    using nz by (simp add: unatSuc add.commute)
  moreover have "unat subresourceIdx < unat (GetNumSubresources S r)"
    using lt by (simp add: word_less_nat_alt)
  ultimately show
    "((S, r, targetState, subresourceIdx + 1,
       if x \<noteq> targetState
       then barriers @ [mkTransition r x targetState subresourceIdx] else barriers),
      (S, r, targetState, subresourceIdx, barriers))
     \<in> measure (\<lambda>(S, r, t, i, bs). unat (GetNumSubresources S r) - unat i)"
    by simp
qed

declare InjectBarriers_all.simps [simp del]

text \<open>The body of the outer loop for one usage record, appending to \<open>barriers\<close>.\<close>

definition InjectBarriers_step ::
  "ResourceStateTable \<Rightarrow> UsedResource \<Rightarrow> TransitionBarrier list \<Rightarrow> TransitionBarrier list" where
  "InjectBarriers_step S u barriers =
     (let r = resource u; sub = subresource u; targetState = firstState u in
      if sub \<noteq> ALL_SUBRESOURCES then
        (let sourceState = ReadState S r sub in
         if sourceState \<noteq> targetState
         then barriers @ [mkTransition r sourceState targetState sub]
         else barriers)
      else InjectBarriers_all S r targetState 0 barriers)"

fun InjectBarriers_loop ::
  "ResourceStateTable \<Rightarrow> UsedResource list \<Rightarrow> TransitionBarrier list \<Rightarrow> TransitionBarrier list" where
  "InjectBarriers_loop S [] barriers = barriers"
| "InjectBarriers_loop S (u # us) barriers =
     InjectBarriers_loop S us (InjectBarriers_step S u barriers)"

definition InjectBarriers :: "ResourceStateTable \<Rightarrow> UsedResource list \<Rightarrow> TransitionBarrier list" where
  "InjectBarriers S us = InjectBarriers_loop S us []"

text \<open>
  The barrier batch as the spec words it, for comparison with the loop above: the
  subresources a usage record covers, and one transition per covered subresource whose
  recorded state differs from the record's first state.
\<close>

definition covered :: "ResourceStateTable \<Rightarrow> UsedResource \<Rightarrow> u32 list" where
  "covered S u =
     (if subresource u = ALL_SUBRESOURCES
      then map word_of_nat [0 ..< unat (GetNumSubresources S (resource u))]
      else [subresource u])"

definition spec_barriers :: "ResourceStateTable \<Rightarrow> UsedResource \<Rightarrow> TransitionBarrier list" where
  "spec_barriers S u =
     map (\<lambda>k. mkTransition (resource u) (ReadState S (resource u) k) (firstState u) k)
       (filter (\<lambda>k. ReadState S (resource u) k \<noteq> firstState u) (covered S u))"

section \<open>Scheduler::UpdateResourceStates\<close>

text \<open>
  \<^verbatim>\<open>for (unsigned s = 0; s < it->resource.GetNumSubresources(); ++s)
      it->resource.RecordState(s, it->lastState);\<close>
  The subresource count is read from the object on every test; \<open>RecordState\<close> does
  not change it.
\<close>

function UpdateResourceStates_all ::
  "ResourceStateTable \<Rightarrow> MemoryObject \<Rightarrow> eResourceState \<Rightarrow> u32 \<Rightarrow> ResourceStateTable" where
  "UpdateResourceStates_all S r v s =
     (if s < GetNumSubresources S r
      then UpdateResourceStates_all (RecordState S r s v) r v (s + 1)
      else S)"
  by pat_completeness auto
termination
proof (relation "measure (\<lambda>(S, r, v, s). unat (GetNumSubresources S r) - unat s)")
  show "wf (measure (\<lambda>(S, r, v, s). unat (GetNumSubresources S r) - unat s))"
    by simp
next
  fix S :: ResourceStateTable and r :: MemoryObject and v :: eResourceState and s :: u32
  assume lt: "s < GetNumSubresources S r"
  then have nz: "s + 1 \<noteq> 0"
    by (metis eq_neg_iff_add_eq_0 word_order.extremum_strict)
  have "unat (s + 1) = Suc (unat s)"
    using nz by (simp add: unatSuc add.commute)
  moreover have "unat s < unat (GetNumSubresources S r)"
    using lt by (simp add: word_less_nat_alt)
  moreover have "GetNumSubresources (RecordState S r s v) r = GetNumSubresources S r"
    by (simp add: GetNumSubresources_def RecordState_def)
  ultimately show
    "((RecordState S r s v, r, v, s + 1), (S, r, v, s))
     \<in> measure (\<lambda>(S, r, v, s). unat (GetNumSubresources S r) - unat s)"
    by simp
qed

declare UpdateResourceStates_all.simps [simp del]

definition UpdateResourceStates_step :: "ResourceStateTable \<Rightarrow> UsedResource \<Rightarrow> ResourceStateTable" where
  "UpdateResourceStates_step S u =
     (if subresource u = ALL_SUBRESOURCES
      then UpdateResourceStates_all S (resource u) (lastState u) 0
      else RecordState S (resource u) (subresource u) (lastState u))"

fun UpdateResourceStates :: "ResourceStateTable \<Rightarrow> UsedResource list \<Rightarrow> ResourceStateTable" where
  "UpdateResourceStates S [] = S"
| "UpdateResourceStates S (u # us) = UpdateResourceStates (UpdateResourceStates_step S u) us"

text \<open>
  A usage record covers the pair \<open>(r, k)\<close>: it names resource \<open>r\<close> and either the
  index \<open>k\<close> itself or, with the all-subresources token, any index below the count.
\<close>

definition covers :: "ResourceStateTable \<Rightarrow> UsedResource \<Rightarrow> MemoryObject \<Rightarrow> u32 \<Rightarrow> bool" where
  "covers S u r k =
     (resource u = r \<and>
      (if subresource u = ALL_SUBRESOURCES then k < GetNumSubresources S r
       else k = subresource u))"

section \<open>Scheduler::CanExecuteParallel\<close>

text \<open>
  The two iterators advance over the two ranges; the walk ends as soon as either
  range is exhausted.
\<close>

fun CanExecuteParallel :: "UsedResource list \<Rightarrow> UsedResource list \<Rightarrow> bool" where
  "CanExecuteParallel [] ys = True"
| "CanExecuteParallel (x # xs) [] = True"
| "CanExecuteParallel (x # xs) (y # ys) =
     (if PtrLess (resource x) (resource y) then CanExecuteParallel xs (y # ys)
      else if PtrGreater (resource x) (resource y) then CanExecuteParallel (x # xs) ys
      else if firstState x \<noteq> firstState y \<or> multipleUse x \<or> multipleUse y then False
      else CanExecuteParallel xs ys)"

text \<open>
  A conflict between two usage lists, in the spec's words: a resource used by both with
  different first states, or with multiple use on either side.
\<close>

definition conflict :: "UsedResource \<Rightarrow> UsedResource \<Rightarrow> bool" where
  "conflict a b =
     (resource a = resource b \<and>
      (firstState a \<noteq> firstState b \<or> multipleUse a \<or> multipleUse b))"

definition has_conflict :: "UsedResource list \<Rightarrow> UsedResource list \<Rightarrow> bool" where
  "has_conflict xs ys = list_ex (\<lambda>a. list_ex (\<lambda>b. conflict a b) ys) xs"

definition shares_resource :: "UsedResource list \<Rightarrow> UsedResource list \<Rightarrow> bool" where
  "shares_resource xs ys = list_ex (\<lambda>a. list_ex (\<lambda>b. resource a = resource b) ys) xs"

text \<open>
  A usage list sorted by resource identity with at most one record per resource.
\<close>

definition strictly_sorted :: "UsedResource list \<Rightarrow> bool" where
  "strictly_sorted xs = sorted_wrt (\<lambda>a b. a < b) (map resource xs)"

section \<open>Resource heaps (ResourceHeap.cpp)\<close>

text \<open>
  A \<open>gxapi::IResource*\<close> is an address. Upload data is a byte sequence.
\<close>

type_synonym IResource = nat
type_synonym u8 = "8 word"

datatype eHeapType = DEFAULT | UPLOAD | READBACK

datatype eHeapFlags = NONE

datatype ResourceDesc = Buffer u64

text \<open>
  The exceptions the sources throw: \<open>gxapi::InvalidArgument(message, argument)\<close> in the
  upload heap and \<open>gxapi::Exception(message)\<close> in the graphics API.
\<close>

datatype exception = InvalidArgument string string | Exception string

text \<open>
  \<open>GraphicsApi::CreateCommittedResource\<close> wraps the device call in \<open>ThrowIfFailed\<close> and
  returns a new resource. The device and the \<open>ThrowIfFailed\<close> helper are outside the
  sources, so the outcome of the device call (the exception raised, or the address of
  the new native resource) is the field \<open>deviceCreate\<close>, which may depend on how many
  resources exist already. \<open>committed\<close> lists the resources created so far and
  \<open>memory\<close> is the mapped memory of each resource.
\<close>

record GraphicsApi =
  deviceCreate :: "nat \<Rightarrow> ResourceDesc \<Rightarrow> exception + IResource"
  committed :: "(IResource \<times> eHeapType \<times> ResourceDesc \<times> eResourceState) list"
  memory :: "IResource \<Rightarrow> u8 list"

definition CreateCommittedResource ::
  "GraphicsApi \<Rightarrow> eHeapType \<Rightarrow> eHeapFlags \<Rightarrow> ResourceDesc \<Rightarrow> eResourceState \<Rightarrow>
   (exception + IResource) \<times> GraphicsApi" where
  "CreateCommittedResource api heapType heapFlags desc initialState =
     (case deviceCreate api (length (committed api)) desc of
        Inl e \<Rightarrow> (Inl e, api)
      | Inr native \<Rightarrow>
          (Inr native,
           api\<lparr>committed := committed api @ [(native, heapType, desc, initialState)]\<rparr>))"







text \<open>
  The critical buffer heap holds the graphics API; \<open>m_resources\<close> is the container that
  the commented-out line of \<open>ReleaseUnderlying\<close> names.
\<close>

record CriticalBufferHeap =
  critical_graphicsApi :: GraphicsApi
  m_resources :: "nat list"

definition Allocate :: "CriticalBufferHeap \<Rightarrow> ResourceDesc \<Rightarrow> (exception + IResource) \<times> CriticalBufferHeap" where
  "Allocate heap desc =
     (case CreateCommittedResource (critical_graphicsApi heap) DEFAULT NONE desc COMMON of
        (res, api) \<Rightarrow> (res, heap\<lparr>critical_graphicsApi := api\<rparr>))"

text \<open>
  \<^verbatim>\<open>void CriticalBufferHeap::ReleaseUnderlying(GenericResource* owner) { //m_resources.erase(owner); }\<close>
\<close>

definition ReleaseUnderlying :: "CriticalBufferHeap \<Rightarrow> nat \<Rightarrow> CriticalBufferHeap" where
  "ReleaseUnderlying heap owner = heap"




section \<open>Pipeline and schedule builder (modelled from the spec)\<close>

text \<open>
  Modelled from the spec: the classes \<open>Pipeline\<close> and \<open>GraphicsTask\<close> are not among the
  sources. A pipeline is the spec's DAG: node identifiers, edges \<open>(a, b)\<close> meaning that
  \<open>b\<close> must start after \<open>a\<close>, and the map from node to task. A task node owns its
  usage list (filled in by Setup), its recorded command list (filled in by Execute) and
  its transient resource references; what its Setup declares and what its Execute
  records in the current frame are the fields \<open>setupOutcome\<close> and \<open>executeOutcome\<close>,
  \<open>None\<close> when the task's code throws.
\<close>

type_synonym color = "nat \<times> nat \<times> nat \<times> nat"

datatype GpuCommand =
    ClearRenderTarget MemoryObject color
  | Transition TransitionBarrier
  | TaskWork nat

record TaskNode =
  usageList :: "UsedResource list"
  commandList :: "GpuCommand list"
  transients :: "MemoryObject list"
  setupOutcome :: "UsedResource list option"
  executeOutcome :: "GpuCommand list option"

record Pipeline =
  nodes :: "nat list"
  arcs :: "(nat \<times> nat) list"
  taskOf :: "nat \<Rightarrow> TaskNode"

text \<open>
  Modelled from the spec: \<open>Scheduler::MakeSchedule\<close> is declared in the header and its
  body is not among the sources. Section 4.3 describes a Kahn-style topological
  ordering: a node is ready when none of its predecessors is still unscheduled; among
  the ready nodes the one with the lowest identifier is taken, except that a ready node
  whose usage list is parallel-compatible with the previously emitted node is
  preferred (again the lowest such identifier). The result is the sequence of node
  identifiers; the task sequence is its image under the node map.
\<close>

definition ready_nodes :: "(nat \<times> nat) list \<Rightarrow> nat list \<Rightarrow> nat list" where
  "ready_nodes es remaining =
     filter (\<lambda>n. \<not> list_ex (\<lambda>(a, b). b = n \<and> a \<in> set remaining) es) remaining"

definition least_of :: "nat list \<Rightarrow> nat" where
  "least_of xs = fold min (tl xs) (hd xs)"

definition pick_node :: "(nat \<Rightarrow> TaskNode) \<Rightarrow> nat option \<Rightarrow> nat list \<Rightarrow> nat" where
  "pick_node taskFunctionMap prev ready =
     (let preferred =
        (case prev of
           None \<Rightarrow> []
         | Some p \<Rightarrow>
             filter (\<lambda>n. CanExecuteParallel (usageList (taskFunctionMap p))
                                            (usageList (taskFunctionMap n))) ready)
      in if preferred \<noteq> [] then least_of preferred else least_of ready)"

function schedule_loop ::
  "(nat \<times> nat) list \<Rightarrow> (nat \<Rightarrow> TaskNode) \<Rightarrow> nat list \<Rightarrow> nat option \<Rightarrow> nat list" where
  "schedule_loop es taskFunctionMap remaining prev =
     (let ready = ready_nodes es remaining in
      if ready = [] then []
      else (let n = pick_node taskFunctionMap prev ready in
            n # schedule_loop es taskFunctionMap (removeAll n remaining) (Some n)))"
  by pat_completeness auto
termination
proof (relation "measure (\<lambda>(es, tm, remaining, prev). length remaining)")
  show "wf (measure (\<lambda>(es, tm, remaining, prev). length remaining))"
    by simp
next
  fix es :: "(nat \<times> nat) list" and taskFunctionMap :: "nat \<Rightarrow> TaskNode"
    and remaining :: "nat list" and prev :: "nat option" and ready :: "nat list" and n :: nat
  assume ready: "ready = ready_nodes es remaining" and ne: "ready \<noteq> []"
    and n: "n = pick_node taskFunctionMap prev ready"
  have fold_in: "fold min xs a \<in> insert a (set xs)" for xs :: "nat list" and a
    by (induction xs arbitrary: a) (auto simp: min_def)
  have least_in: "least_of xs \<in> set xs" if "xs \<noteq> []" for xs
  proof -
    from that obtain y ys where "xs = y # ys" by (cases xs) auto
    then show ?thesis using fold_in [of ys y] by (simp add: least_of_def)
  qed
  have "n \<in> set ready"
  proof (cases prev)
    case None
    then show ?thesis using n ne least_in by (simp add: pick_node_def)
  next
    case (Some p)
    let ?pref = "filter (\<lambda>m. CanExecuteParallel (usageList (taskFunctionMap p))
                                                 (usageList (taskFunctionMap m))) ready"
    show ?thesis
    proof (cases "?pref = []")
      case True
      with Some n ne least_in show ?thesis by (simp add: pick_node_def)
    next
      case False
      then have "least_of ?pref \<in> set ?pref" by (rule least_in)
      with Some n False show ?thesis by (simp add: pick_node_def)
    qed
  qed
  then have "n \<in> set remaining" by (simp add: ready ready_nodes_def)
  then have "length (removeAll n remaining) < length remaining"
    by (rule length_removeAll_less)
  then show "((es, taskFunctionMap, removeAll n remaining, Some n),
              (es, taskFunctionMap, remaining, prev))
     \<in> measure (\<lambda>(es, tm, remaining, prev). length remaining)"
    by simp
qed

declare schedule_loop.simps [simp del]

text \<open>
  Modelled from the spec: the entry point \<open>Scheduler::MakeSchedule\<close>, whose body is not
  among the sources, starts the loop of section 4.3 with every node unscheduled and no
  previously emitted node.
\<close>

definition MakeSchedule :: "nat list \<Rightarrow> (nat \<times> nat) list \<Rightarrow> (nat \<Rightarrow> TaskNode) \<Rightarrow> nat list" where
  "MakeSchedule taskGraphNodes taskGraphArcs taskFunctionMap =
     schedule_loop taskGraphArcs taskFunctionMap taskGraphNodes None"

text \<open>
  Node \<open>a\<close> comes strictly before node \<open>b\<close> in a sequence: \<open>b\<close> occurs after the first
  occurrence of \<open>a\<close>.
\<close>

fun precedes :: "nat \<Rightarrow> nat \<Rightarrow> nat list \<Rightarrow> bool" where
  "precedes a b [] = False"
| "precedes a b (x # xs) = (if x = a then b \<in> set xs else precedes a b xs)"

text \<open>
  Modelled from the spec: the assembly of the submission (section 4.6, step 4), whose
  code is not among the sources. Walking the tasks in schedule order, each task
  contributes its barrier batch (\<open>InjectBarriers\<close> on its usage list and the current
  table), then its command list, and then the table is advanced over its usage list
  (\<open>UpdateResourceStates\<close>).
\<close>

fun assemble ::
  "ResourceStateTable \<Rightarrow> TaskNode list \<Rightarrow> ResourceStateTable \<times> GpuCommand list list" where
  "assemble S [] = (S, [])"
| "assemble S (t # ts) =
     (let barriers = InjectBarriers S (usageList t);
          S' = UpdateResourceStates S (usageList t);
          (S'', rest) = assemble S' ts
      in (S'', map Transition barriers # commandList t # rest))"

section \<open>The scheduler class (header)\<close>










section \<open>Example inputs\<close>

text \<open>Concrete tables and usage lists at which the theorems below are instantiated.\<close>

definition fanout_table :: ResourceStateTable where
  "fanout_table =
     \<lparr>states = (\<lambda>(r, k). if r = 7 \<and> k = 1 then COPY_DEST
                          else if r = 7 \<and> k = 2 then RENDER_TARGET else COMMON),
      numSubresources = (\<lambda>r. if r = 7 then 4 else 1)\<rparr>"

definition fanout_usages :: "UsedResource list" where
  "fanout_usages =
     [\<lparr>resource = 7, subresource = ALL_SUBRESOURCES, firstState = COPY_DEST,
       lastState = COPY_DEST, multipleUse = False\<rparr>,
      \<lparr>resource = 9, subresource = 0, firstState = RENDER_TARGET,
       lastState = PRESENT, multipleUse = False\<rparr>]"

definition repeated_a :: "UsedResource list" where
  "repeated_a =
     [\<lparr>resource = 1, subresource = 0, firstState = SHADER_RESOURCE,
       lastState = SHADER_RESOURCE, multipleUse = False\<rparr>,
      \<lparr>resource = 1, subresource = 1, firstState = UNORDERED_ACCESS,
       lastState = UNORDERED_ACCESS, multipleUse = False\<rparr>]"

definition repeated_b :: "UsedResource list" where
  "repeated_b =
     [\<lparr>resource = 1, subresource = 1, firstState = SHADER_RESOURCE,
       lastState = SHADER_RESOURCE, multipleUse = False\<rparr>]"

definition disjoint_a :: "UsedResource list" where
  "disjoint_a =
     [\<lparr>resource = 1, subresource = 0, firstState = RENDER_TARGET,
       lastState = RENDER_TARGET, multipleUse = True\<rparr>,
      \<lparr>resource = 3, subresource = ALL_SUBRESOURCES, firstState = COPY_DEST,
       lastState = COPY_SOURCE, multipleUse = False\<rparr>]"

definition disjoint_b :: "UsedResource list" where
  "disjoint_b =
     [\<lparr>resource = 2, subresource = 0, firstState = SHADER_RESOURCE,
       lastState = SHADER_RESOURCE, multipleUse = False\<rparr>,
      \<lparr>resource = 4, subresource = 1, firstState = UNORDERED_ACCESS,
       lastState = UNORDERED_ACCESS, multipleUse = True\<rparr>]"




definition diamond_task :: "nat \<Rightarrow> TaskNode" where
  "diamond_task n =
     \<lparr>usageList =
        (if n = 0 then
           [\<lparr>resource = 1, subresource = 0, firstState = RENDER_TARGET,
             lastState = RENDER_TARGET, multipleUse = False\<rparr>]
         else if n = 1 then
           [\<lparr>resource = 1, subresource = 0, firstState = SHADER_RESOURCE,
             lastState = SHADER_RESOURCE, multipleUse = False\<rparr>]
         else if n = 2 then
           [\<lparr>resource = 2, subresource = 0, firstState = COPY_DEST,
             lastState = COPY_SOURCE, multipleUse = False\<rparr>]
         else
           [\<lparr>resource = 1, subresource = 0, firstState = UNORDERED_ACCESS,
             lastState = UNORDERED_ACCESS, multipleUse = True\<rparr>,
            \<lparr>resource = 2, subresource = 0, firstState = SHADER_RESOURCE,
             lastState = SHADER_RESOURCE, multipleUse = False\<rparr>]),
      commandList = [TaskWork n], transients = [n],
      setupOutcome = None, executeOutcome = Some [TaskWork n]\<rparr>"

definition diamond_nodes :: "nat list" where
  "diamond_nodes = [3, 1, 2, 0]"

definition diamond_arcs :: "(nat \<times> nat) list" where
  "diamond_arcs = [(0, 1), (0, 2), (1, 3), (2, 3)]"

definition diamond_nodes_shuffled :: "nat list" where
  "diamond_nodes_shuffled = [0, 2, 3, 1, 2]"

definition diamond_arcs_shuffled :: "(nat \<times> nat) list" where
  "diamond_arcs_shuffled = [(2, 3), (1, 3), (0, 2), (0, 1), (2, 3)]"










section \<open>Barrier injection emits exactly the needed transitions\<close>

lemma word_succ_unat:
  fixes i n :: u32
  assumes "i < n"
  shows "unat (i + 1) = Suc (unat i)"
proof -
  from assms have "i + 1 \<noteq> 0"
    by (metis eq_neg_iff_add_eq_0 word_order.extremum_strict)
  then show ?thesis by (simp add: unatSuc add.commute)
qed

lemma unat_word_of_nat_below:
  fixes n :: u32
  assumes "j < unat n"
  shows "unat (word_of_nat j :: u32) = j"
proof -
  have "unat n < 2 ^ LENGTH(32)" by (rule unsigned_less)
  with assms have "j < 2 ^ LENGTH(32)" by (rule less_trans)
  with refl show ?thesis by (rule of_nat_inverse)
qed

lemma InjectBarriers_all_eq:
  "InjectBarriers_all S r t i bs =
     bs @ map (\<lambda>k. mkTransition r (ReadState S r k) t k)
            (filter (\<lambda>k. ReadState S r k \<noteq> t)
               (map word_of_nat [unat i ..< unat (GetNumSubresources S r)]))"
proof (induction S r t i bs rule: InjectBarriers_all.induct)
  case (1 S r t i bs)
  show ?case
  proof (cases "i < GetNumSubresources S r")
    case True
    then have lt: "unat i < unat (GetNumSubresources S r)"
      by (simp add: word_less_nat_alt)
    have suc: "unat (i + 1) = Suc (unat i)"
      using True by (rule word_succ_unat)
    have split: "[unat i ..< unat (GetNumSubresources S r)] =
                 unat i # [Suc (unat i) ..< unat (GetNumSubresources S r)]"
      using lt by (simp add: upt_conv_Cons)
    show ?thesis
      using True "1.IH" [OF True refl]
      by (subst InjectBarriers_all.simps) (simp add: split suc Let_def)
  next
    case False
    then have "\<not> unat i < unat (GetNumSubresources S r)"
      by (simp add: word_less_nat_alt)
    then show ?thesis
      using False by (subst InjectBarriers_all.simps) simp
  qed
qed

lemma InjectBarriers_step_eq: "InjectBarriers_step S u bs = bs @ spec_barriers S u"
  by (simp add: InjectBarriers_step_def spec_barriers_def covered_def Let_def
      InjectBarriers_all_eq)

lemma InjectBarriers_loop_eq:
  "InjectBarriers_loop S us bs = bs @ concat (map (spec_barriers S) us)"
  by (induction us arbitrary: bs) (simp_all add: InjectBarriers_step_eq)

lemma set_covered: "set (covered S u) = {k. covers S u (resource u) k}"
proof (cases "subresource u = ALL_SUBRESOURCES")
  case True
  have "set (map word_of_nat [0 ..< unat n]) = {k :: u32. k < n}" for n :: u32
  proof (intro set_eqI iffI)
    fix k :: u32
    assume "k \<in> set (map word_of_nat [0 ..< unat n])"
    then obtain j where j: "j < unat n" "k = word_of_nat j" by auto
    from j have "unat k = j" by (simp add: unat_word_of_nat_below)
    with j show "k \<in> {k. k < n}" by (simp add: word_less_nat_alt)
  next
    fix k :: u32
    assume "k \<in> {k. k < n}"
    then have "unat k < unat n" by (simp add: word_less_nat_alt)
    moreover have "k = word_of_nat (unat k)" by simp
    ultimately show "k \<in> set (map word_of_nat [0 ..< unat n])"
      by (metis (no_types, lifting) atLeastLessThan_iff image_eqI le0 set_map set_upt)
  qed
  with True show ?thesis by (simp add: covered_def covers_def)
next
  case False
  then show ?thesis by (auto simp: covered_def covers_def)
qed

lemma distinct_covered: "distinct (covered S u)"
proof (cases "subresource u = ALL_SUBRESOURCES")
  case True
  have "inj_on (word_of_nat :: nat \<Rightarrow> u32) {0 ..< unat n}" for n :: u32
  proof (rule inj_onI)
    fix x y assume x: "x \<in> {0 ..< unat n}" and y: "y \<in> {0 ..< unat n}"
      and eq: "(word_of_nat x :: u32) = word_of_nat y"
    from x have "unat (word_of_nat x :: u32) = x"
      by (simp add: unat_word_of_nat_below)
    moreover from y have "unat (word_of_nat y :: u32) = y"
      by (simp add: unat_word_of_nat_below)
    ultimately show "x = y" using eq by metis
  qed
  with True show ?thesis by (simp add: covered_def distinct_map)
next
  case False
  then show ?thesis by (simp add: covered_def)
qed

lemma count_distinct_filter:
  "distinct xs \<Longrightarrow>
   length (filter (\<lambda>j. j = k \<and> P j) xs) = (if k \<in> set xs \<and> P k then 1 else 0)"
  by (induction xs) auto

lemma count_spec_barriers:
  "length (filter (\<lambda>b. subResource b = k) (spec_barriers S u)) =
     (if covers S u (resource u) k \<and> ReadState S (resource u) k \<noteq> firstState u then 1 else 0)"
proof -
  have sub: "subResource (mkTransition r a b j) = j" for r a b j
    by (simp add: mkTransition_def)
  have "length (filter (\<lambda>b. subResource b = k) (spec_barriers S u)) =
        length (filter (\<lambda>j. j = k \<and> ReadState S (resource u) j \<noteq> firstState u) (covered S u))"
    by (simp add: spec_barriers_def filter_map comp_def sub conj_commute)
  also have "\<dots> = (if k \<in> set (covered S u) \<and> ReadState S (resource u) k \<noteq> firstState u then 1 else 0)"
    using distinct_covered [of S u] by (rule count_distinct_filter)
  finally show ?thesis by (simp add: set_covered)
qed

lemma spec_barriers_sound:
  "b \<in> set (spec_barriers S u) \<Longrightarrow>
   barrierResource b = resource u \<and>
   beforeState b = ReadState S (resource u) (subResource b) \<and>
   afterState b = firstState u \<and> beforeState b \<noteq> afterState b"
  by (auto simp: spec_barriers_def mkTransition_def)

text \<open>
  Claim C1. For every usage list and every shadow state table, the barrier batch is the
  concatenation, record by record, of one transition per covered subresource whose
  recorded state differs from the record's first state, from the recorded state to the
  first state; a covered subresource whose recorded state equals the first state gets
  none. The covered subresources are all indices below the subresource count for the
  all-subresources token and the named index otherwise. Hence no emitted barrier has
  equal before and after states.
\<close>

theorem InjectBarriers_exact:
  "InjectBarriers S us = concat (map (spec_barriers S) us) \<and>
   (\<forall>u k. length (filter (\<lambda>b. subResource b = k) (spec_barriers S u)) =
      (if covers S u (resource u) k \<and> ReadState S (resource u) k \<noteq> firstState u
       then 1 else 0)) \<and>
   (\<forall>u. \<forall>b \<in> set (spec_barriers S u).
      barrierResource b = resource u \<and>
      beforeState b = ReadState S (resource u) (subResource b) \<and>
      afterState b = firstState u) \<and>
   (\<forall>b \<in> set (InjectBarriers S us). beforeState b \<noteq> afterState b)"
proof (intro conjI allI ballI)
  show eq: "InjectBarriers S us = concat (map (spec_barriers S) us)"
    by (simp add: InjectBarriers_def InjectBarriers_loop_eq)
  show "length (filter (\<lambda>b. subResource b = k) (spec_barriers S u)) =
      (if covers S u (resource u) k \<and> ReadState S (resource u) k \<noteq> firstState u
       then 1 else 0)" for u k
    by (rule count_spec_barriers)
  show "barrierResource b = resource u" if "b \<in> set (spec_barriers S u)" for u b
    using spec_barriers_sound [OF that] by simp
  show "beforeState b = ReadState S (resource u) (subResource b)"
    if "b \<in> set (spec_barriers S u)" for u b
    using spec_barriers_sound [OF that] by simp
  show "afterState b = firstState u" if "b \<in> set (spec_barriers S u)" for u b
    using spec_barriers_sound [OF that] by simp
  show "beforeState b \<noteq> afterState b" if "b \<in> set (InjectBarriers S us)" for b
  proof -
    from that eq obtain u where "b \<in> set (spec_barriers S u)" by auto
    then show ?thesis using spec_barriers_sound by blast
  qed
qed

lemma upt4: "[0 ..< 4] = [0, Suc 0, 2, 3]"
  by (simp add: upt_rec)

text \<open>
  The theorem at a resource with four subresources in states common, copy-dest,
  render-target, common, used through the all-subresources token with first state
  copy-dest, followed by a single-subresource usage of another resource.
\<close>

theorem InjectBarriers_exact_witness:
  "InjectBarriers fanout_table fanout_usages =
     [mkTransition 7 COMMON COPY_DEST 0, mkTransition 7 RENDER_TARGET COPY_DEST 2,
      mkTransition 7 COMMON COPY_DEST 3, mkTransition 9 COMMON RENDER_TARGET 0] \<and>
   mkTransition 7 COMMON COPY_DEST 0 \<in> set (InjectBarriers fanout_table fanout_usages) \<and>
   mkTransition 7 COMMON COPY_DEST 0 \<in> set (spec_barriers fanout_table (hd fanout_usages)) \<and>
   beforeState (mkTransition 7 COMMON COPY_DEST 0) \<noteq> afterState (mkTransition 7 COMMON COPY_DEST 0) \<and>
   length (filter (\<lambda>b. subResource b = 1) (spec_barriers fanout_table (hd fanout_usages))) = 0 \<and>
   length (filter (\<lambda>b. subResource b = 2) (spec_barriers fanout_table (hd fanout_usages))) = 1"
  using InjectBarriers_exact [of fanout_table fanout_usages]
  by (simp add: fanout_table_def fanout_usages_def spec_barriers_def covered_def
      ReadState_def GetNumSubresources_def ALL_SUBRESOURCES_def mkTransition_def upt4)

section \<open>Advancing the state table\<close>

lemma upd_point:
  fixes s k n :: u32
  assumes le: "(s + 1 \<le> k) = (s \<le> k \<and> k \<noteq> s)" and lt: "s < n"
  shows "(if r' = r \<and> s + 1 \<le> k \<and> k < n
          then v else states (RecordState S r s v) (r', k)) =
         (if r' = r \<and> s \<le> k \<and> k < n then v else states S (r', k))"
proof (cases "r' = r \<and> k = s")
  case True
  then have "states (RecordState S r s v) (r', k) = v"
    by (simp add: RecordState_def)
  moreover have "\<not> (s + 1 \<le> k)" using True le by blast
  moreover have "s \<le> k" using True by simp
  ultimately show ?thesis using True lt by (simp only: if_True if_False simp_thms)
next
  case False
  then have "states (RecordState S r s v) (r', k) = states S (r', k)"
    by (auto simp add: RecordState_def)
  moreover have "(r' = r \<and> s + 1 \<le> k \<and> k < n) = (r' = r \<and> s \<le> k \<and> k < n)"
    using False le by blast
  ultimately show ?thesis by (simp only:)
qed

lemma UpdateResourceStates_all_eq:
  "UpdateResourceStates_all S r v s =
     S\<lparr>states := (\<lambda>(r', k). if r' = r \<and> s \<le> k \<and> k < GetNumSubresources S r
                               then v else states S (r', k))\<rparr>"
proof (induction S r v s rule: UpdateResourceStates_all.induct)
  case (1 S r v s)
  define G where "G = (\<lambda>(r', k). if r' = r \<and> s \<le> k \<and> k < GetNumSubresources S r
                               then v else states S (r', k))"
  show ?case
  proof (cases "s < GetNumSubresources S r")
    case True
    define F where "F = (\<lambda>(r', k). if r' = r \<and> s + 1 \<le> k \<and> k < GetNumSubresources S r
                    then v else states (RecordState S r s v) (r', k))"
    have n: "GetNumSubresources (RecordState S r s v) r = GetNumSubresources S r"
      by (simp add: GetNumSubresources_def RecordState_def)
    have suc: "unat (s + 1) = Suc (unat s)"
      using True by (rule word_succ_unat)
    have le: "(s + 1 \<le> k) = (s \<le> k \<and> k \<noteq> s)" for k
    proof -
      have "(s + 1 \<le> k) = (Suc (unat s) \<le> unat k)"
        by (simp only: word_le_nat_alt suc)
      also have "\<dots> = (unat s \<le> unat k \<and> unat k \<noteq> unat s)"
        by arith
      also have "\<dots> = (s \<le> k \<and> k \<noteq> s)"
        by (simp only: word_le_nat_alt word_unat_eq_iff)
      finally show ?thesis .
    qed
    have FG: "F = G"
    proof (rule ext)
      fix p :: "MemoryObject \<times> u32"
      obtain r' k where p: "p = (r', k)" by (cases p)
      show "F p = G p"
        unfolding p F_def G_def prod.case using le True by (rule upd_point)
    qed
    have "UpdateResourceStates_all S r v s =
          UpdateResourceStates_all (RecordState S r s v) r v (s + 1)"
      using True by (subst UpdateResourceStates_all.simps) simp
    also have "\<dots> = (RecordState S r s v)\<lparr>states := F\<rparr>"
      using "1.IH" [OF True] unfolding F_def n .
    also have "\<dots> = S\<lparr>states := F\<rparr>"
      by (simp add: RecordState_def)
    finally show ?thesis unfolding FG G_def .
  next
    case False
    then have "UpdateResourceStates_all S r v s = S"
      by (subst UpdateResourceStates_all.simps) simp
    moreover have "G = states S"
      using False by (auto simp: fun_eq_iff G_def)
    ultimately show ?thesis unfolding G_def [symmetric] by simp
  qed
qed

lemma numSubresources_step [simp]:
  "numSubresources (UpdateResourceStates_step S u) = numSubresources S"
  by (simp add: UpdateResourceStates_step_def UpdateResourceStates_all_eq RecordState_def)

lemma numSubresources_UpdateResourceStates [simp]:
  "numSubresources (UpdateResourceStates S us) = numSubresources S"
  by (induction us arbitrary: S) simp_all

lemma covers_cong:
  "numSubresources S' = numSubresources S \<Longrightarrow> covers S' u r k = covers S u r k"
  by (simp add: covers_def GetNumSubresources_def)

lemma ReadState_step:
  "ReadState (UpdateResourceStates_step S u) r k =
     (if covers S u r k then lastState u else ReadState S r k)"
  by (auto simp: UpdateResourceStates_step_def UpdateResourceStates_all_eq RecordState_def
      ReadState_def covers_def)

lemma UpdateResourceStates_uncovered:
  "\<forall>u \<in> set us. \<not> covers S u r k \<Longrightarrow>
   ReadState (UpdateResourceStates S us) r k = ReadState S r k"
proof (induction us arbitrary: S)
  case Nil
  show ?case by simp
next
  case (Cons u us)
  have "\<forall>u' \<in> set us. \<not> covers (UpdateResourceStates_step S u) u' r k"
    using Cons.prems by (simp add: covers_cong [of "UpdateResourceStates_step S u" S])
  then have "ReadState (UpdateResourceStates (UpdateResourceStates_step S u) us) r k =
             ReadState (UpdateResourceStates_step S u) r k"
    by (rule Cons.IH)
  then show ?case using Cons.prems by (simp add: ReadState_step)
qed

lemma UpdateResourceStates_append:
  "UpdateResourceStates S (us @ vs) = UpdateResourceStates (UpdateResourceStates S us) vs"
  by (induction us arbitrary: S) simp_all

lemma UpdateResourceStates_last_cover:
  assumes "covers S u r k" and "\<forall>u' \<in> set us2. \<not> covers S u' r k"
  shows "ReadState (UpdateResourceStates S (us1 @ u # us2)) r k = lastState u"
proof -
  let ?S1 = "UpdateResourceStates S us1"
  let ?S2 = "UpdateResourceStates_step ?S1 u"
  have n1: "numSubresources ?S1 = numSubresources S" by simp
  have n2: "numSubresources ?S2 = numSubresources S" by simp
  have "\<forall>u' \<in> set us2. \<not> covers ?S2 u' r k"
    using assms(2) by (simp add: covers_cong [OF n2])
  then have "ReadState (UpdateResourceStates ?S2 us2) r k = ReadState ?S2 r k"
    by (rule UpdateResourceStates_uncovered)
  also have "\<dots> = lastState u"
    using assms(1) by (simp add: ReadState_step covers_cong [OF n1])
  finally show ?thesis by (simp add: UpdateResourceStates_append)
qed

text \<open>
  Claim C2. Advancing the table over a task's usage list leaves the subresource counts
  alone, leaves every (resource, subresource) pair that no record covers at its recorded
  state, and sets every covered pair to the last state of the record covering it (of the
  last such record in list order, since the records are applied in sequence). A record
  with the all-subresources token covers every index below the resource's count, any
  other record just the index it names.
\<close>

theorem UpdateResourceStates_frame:
  "numSubresources (UpdateResourceStates S us) = numSubresources S \<and>
   (\<forall>r k. (\<forall>u \<in> set us. \<not> covers S u r k) \<longrightarrow>
      ReadState (UpdateResourceStates S us) r k = ReadState S r k) \<and>
   (\<forall>r k us1 u us2.
      us = us1 @ u # us2 \<and> covers S u r k \<and> (\<forall>u' \<in> set us2. \<not> covers S u' r k) \<longrightarrow>
      ReadState (UpdateResourceStates S us) r k = lastState u)"
  using UpdateResourceStates_uncovered UpdateResourceStates_last_cover
  by (intro conjI allI impI) (simp, blast, blast)

text \<open>
  The theorem at the four-subresource table: the pair (9, 1) is covered by no record and
  keeps its state, (7, 2) is covered by the all-subresources record and (9, 0) by the
  single-subresource record.
\<close>

theorem UpdateResourceStates_frame_witness:
  "list_all (\<lambda>u. \<not> covers fanout_table u 9 1) fanout_usages \<and>
   ReadState (UpdateResourceStates fanout_table fanout_usages) 9 1 = COMMON \<and>
   covers fanout_table (hd fanout_usages) 7 2 \<and>
   ReadState fanout_table 7 2 = RENDER_TARGET \<and>
   ReadState (UpdateResourceStates fanout_table fanout_usages) 7 2 = COPY_DEST \<and>
   covers fanout_table (fanout_usages ! 1) 9 0 \<and>
   ReadState (UpdateResourceStates fanout_table fanout_usages) 9 0 = PRESENT"
proof -
  note fr = UpdateResourceStates_frame [of fanout_table fanout_usages]
  have unc: "\<forall>u \<in> set fanout_usages. \<not> covers fanout_table u 9 1"
    by (simp add: fanout_usages_def covers_def ALL_SUBRESOURCES_def)
  with fr have a: "ReadState (UpdateResourceStates fanout_table fanout_usages) 9 1 =
                   ReadState fanout_table 9 1"
    by blast
  have c1: "fanout_usages = [] @ hd fanout_usages # tl fanout_usages \<and>
            covers fanout_table (hd fanout_usages) 7 2 \<and>
            (\<forall>u' \<in> set (tl fanout_usages). \<not> covers fanout_table u' 7 2)"
    by (simp add: fanout_usages_def fanout_table_def covers_def ALL_SUBRESOURCES_def
        GetNumSubresources_def)
  with fr have b: "ReadState (UpdateResourceStates fanout_table fanout_usages) 7 2 =
                   lastState (hd fanout_usages)"
    by blast
  have c2: "fanout_usages = [hd fanout_usages] @ (fanout_usages ! 1) # [] \<and>
            covers fanout_table (fanout_usages ! 1) 9 0 \<and>
            (\<forall>u' \<in> set []. \<not> covers fanout_table u' 9 0)"
    by (simp add: fanout_usages_def fanout_table_def covers_def ALL_SUBRESOURCES_def
        GetNumSubresources_def)
  with fr have c: "ReadState (UpdateResourceStates fanout_table fanout_usages) 9 0 =
                   lastState (fanout_usages ! 1)"
    by blast
  have vals: "ReadState fanout_table 9 1 = COMMON" "ReadState fanout_table 7 2 = RENDER_TARGET"
    "lastState (hd fanout_usages) = COPY_DEST" "lastState (fanout_usages ! 1) = PRESENT"
    by (simp_all add: fanout_table_def fanout_usages_def ReadState_def)
  show ?thesis using unc a b c c1 c2 vals by (simp add: list_all_iff)
qed

section \<open>The parallel-compatibility walk\<close>

lemma has_conflict_iff:
  "has_conflict xs ys = (\<exists>a \<in> set xs. \<exists>b \<in> set ys. conflict a b)"
  by (simp add: has_conflict_def list_ex_iff)

lemma shares_resource_iff:
  "shares_resource xs ys = (\<exists>a \<in> set xs. \<exists>b \<in> set ys. resource a = resource b)"
  by (simp add: shares_resource_def list_ex_iff)

lemma CanExecuteParallel_unshared:
  "\<not> shares_resource xs ys \<Longrightarrow> CanExecuteParallel xs ys"
proof (induction xs ys rule: CanExecuteParallel.induct)
  case (3 x xs y ys)
  from "3.prems" have ne: "resource x \<noteq> resource y"
    by (auto simp: shares_resource_iff)
  from "3.prems" have l: "\<not> shares_resource xs (y # ys)"
    and r: "\<not> shares_resource (x # xs) ys"
    by (auto simp: shares_resource_iff)
  show ?case
  proof (cases "resource x < resource y")
    case True
    with "3.IH"(1) l show ?thesis by (simp add: PtrLess_def)
  next
    case False
    with ne have gt: "resource y < resource x" by simp
    with False "3.IH"(2) r show ?thesis by (simp add: PtrLess_def PtrGreater_def)
  qed
qed simp_all

text \<open>A rejection always comes from a real conflict, sorted lists or not.\<close>

lemma CanExecuteParallel_rejects_only_conflicts:
  "\<not> CanExecuteParallel xs ys \<Longrightarrow> has_conflict xs ys"
proof (induction xs ys rule: CanExecuteParallel.induct)
  case (3 x xs y ys)
  show ?case
  proof (cases "resource x < resource y")
    case True
    with "3.prems" have "\<not> CanExecuteParallel xs (y # ys)" by (simp add: PtrLess_def)
    with True "3.IH"(1) have "has_conflict xs (y # ys)" by (simp add: PtrLess_def)
    then show ?thesis by (auto simp: has_conflict_iff)
  next
    case nl: False
    show ?thesis
    proof (cases "resource y < resource x")
      case True
      with nl "3.prems" have "\<not> CanExecuteParallel (x # xs) ys"
        by (simp add: PtrLess_def PtrGreater_def)
      with nl True "3.IH"(2) have "has_conflict (x # xs) ys"
        by (simp add: PtrLess_def PtrGreater_def)
      then show ?thesis by (auto simp: has_conflict_iff)
    next
      case False
      with nl have eq: "resource x = resource y" by simp
      show ?thesis
      proof (cases "firstState x \<noteq> firstState y \<or> multipleUse x \<or> multipleUse y")
        case True
        with eq have "conflict x y" by (simp add: conflict_def)
        then show ?thesis by (auto simp: has_conflict_iff)
      next
        case c: False
        with nl False "3.prems" have "\<not> CanExecuteParallel xs ys"
          by (simp add: PtrLess_def PtrGreater_def)
        with nl False c "3.IH"(3) have "has_conflict xs ys"
          by (simp add: PtrLess_def PtrGreater_def)
        then show ?thesis by (auto simp: has_conflict_iff)
      qed
    qed
  qed
qed simp_all

text \<open>
  With at most one record per resource in each sorted list the walk is exact: it accepts
  precisely the pairs of lists without a conflict.
\<close>

lemma CanExecuteParallel_strictly_sorted:
  "strictly_sorted xs \<Longrightarrow> strictly_sorted ys \<Longrightarrow>
   CanExecuteParallel xs ys = (\<not> has_conflict xs ys)"
proof (induction xs ys rule: CanExecuteParallel.induct)
  case (1 ys)
  show ?case by (simp add: has_conflict_iff)
next
  case (2 x xs)
  show ?case by (simp add: has_conflict_iff)
next
  case (3 x xs y ys)
  from "3.prems" have sx: "strictly_sorted xs" and sy: "strictly_sorted ys"
    and gx: "\<forall>a \<in> set xs. resource x < resource a"
    and gy: "\<forall>b \<in> set ys. resource y < resource b"
    by (auto simp: strictly_sorted_def)
  show ?case
  proof (cases "resource x < resource y")
    case True
    have "\<not> conflict x b" if "b \<in> set (y # ys)" for b
      using that True gy by (auto simp: conflict_def)
    then have "has_conflict (x # xs) (y # ys) = has_conflict xs (y # ys)"
      by (auto simp: has_conflict_iff)
    with True "3.IH"(1) [OF _ sx "3.prems"(2)] show ?thesis
      by (simp add: PtrLess_def)
  next
    case nl: False
    show ?thesis
    proof (cases "resource y < resource x")
      case True
      have "\<not> conflict a y" if "a \<in> set (x # xs)" for a
        using that True gx by (auto simp: conflict_def)
      then have "has_conflict (x # xs) (y # ys) = has_conflict (x # xs) ys"
        by (auto simp: has_conflict_iff)
      with nl True "3.IH"(2) [OF _ _ "3.prems"(1) sy] show ?thesis
        by (simp add: PtrLess_def PtrGreater_def)
    next
      case False
      with nl have eq: "resource x = resource y" by simp
      have nx: "\<not> conflict x b" if "b \<in> set ys" for b
        using that eq gy by (auto simp: conflict_def)
      have ny: "\<not> conflict a y" if "a \<in> set xs" for a
        using that eq gx by (auto simp: conflict_def)
      have hc: "has_conflict (x # xs) (y # ys) = (conflict x y \<or> has_conflict xs ys)"
        using nx ny by (auto simp: has_conflict_iff)
      show ?thesis
      proof (cases "firstState x \<noteq> firstState y \<or> multipleUse x \<or> multipleUse y")
        case True
        with eq have "conflict x y" by (simp add: conflict_def)
        with nl False True hc show ?thesis
          by (simp add: PtrLess_def PtrGreater_def)
      next
        case c: False
        with eq have "\<not> conflict x y" by (simp add: conflict_def)
        with nl False c hc "3.IH"(3) [OF _ _ _ sx sy] show ?thesis
          by (simp add: PtrLess_def PtrGreater_def)
      qed
    qed
  qed
qed

text \<open>
  Claim C3. The claim asks that any two usage lists, sorted by resource identity, that
  share a resource with mismatched first states are rejected. The walk advances both
  iterators past a matching pair, so with two records for one resource on one side (two
  subresources of the same resource) the second record is never compared with the other
  list's record: the lists below are sorted, the second record of the first list and the
  record of the second list name resource 1 with different first states, and the walk
  accepts the pair.
\<close>

theorem CanExecuteParallel_repeated_resource:
  "sorted (map resource repeated_a) \<and> sorted (map resource repeated_b) \<and>
   CanExecuteParallel repeated_a repeated_b = True \<and>
   resource (repeated_a ! 1) = resource (repeated_b ! 0) \<and>
   firstState (repeated_a ! 1) \<noteq> firstState (repeated_b ! 0)"
  by (simp add: repeated_a_def repeated_b_def PtrLess_def PtrGreater_def)

text \<open>
  Claim C7. Two usage lists that share no resource pass the parallel-compatibility
  check, whatever their first states and multiple-use flags and whether or not they are
  sorted; in particular the check passes when either list is empty.
\<close>

theorem CanExecuteParallel_disjoint:
  "(\<not> shares_resource xs ys \<longrightarrow> CanExecuteParallel xs ys) \<and>
   CanExecuteParallel [] ys \<and> CanExecuteParallel xs []"
proof (intro conjI impI)
  show "CanExecuteParallel xs ys" if "\<not> shares_resource xs ys"
    using that by (rule CanExecuteParallel_unshared)
  show "CanExecuteParallel [] ys" by simp
  show "CanExecuteParallel xs []" by (cases xs) simp_all
qed

text \<open>The theorem at two lists over the resources 1, 3 and 2, 4.\<close>

theorem CanExecuteParallel_disjoint_witness:
  "\<not> shares_resource disjoint_a disjoint_b \<and> CanExecuteParallel disjoint_a disjoint_b"
  using CanExecuteParallel_disjoint [of disjoint_a disjoint_b]
  by (simp add: shares_resource_def disjoint_a_def disjoint_b_def)

section \<open>The upload heap and the critical buffer heap\<close>




text \<open>
  Claim C10. \<open>CriticalBufferHeap::ReleaseUnderlying\<close> has an empty body: for every owner
  it returns the heap as it was, so nothing is erased from \<open>m_resources\<close>.
\<close>

theorem ReleaseUnderlying_no_effect:
  "ReleaseUnderlying heap owner = heap \<and>
   m_resources (ReleaseUnderlying heap owner) = m_resources heap \<and>
   critical_graphicsApi (ReleaseUnderlying heap owner) = critical_graphicsApi heap"
  by (simp add: ReleaseUnderlying_def)

section \<open>The schedule builder\<close>

lemma fold_min_in: "fold min xs (a :: nat) \<in> insert a (set xs)"
  by (induction xs arbitrary: a) (auto simp: min_def)

lemma fold_min_Min: "fold min xs (a :: nat) = Min (insert a (set xs))"
proof (induction xs arbitrary: a)
  case Nil
  show ?case by simp
next
  case (Cons x xs)
  have "fold min (x # xs) a = Min (insert (min a x) (set xs))"
    by (simp add: Cons.IH min.commute)
  also have "\<dots> = Min (insert a (insert x (set xs)))"
  proof (cases "set xs = {}")
    case True
    then show ?thesis by (simp add: min_def)
  next
    case False
    then show ?thesis by (simp add: Min_insert min.assoc)
  qed
  finally show ?case by simp
qed

lemma least_of_in: "xs \<noteq> [] \<Longrightarrow> least_of xs \<in> set xs"
  using fold_min_in [of "tl xs" "hd xs"] by (cases xs) (auto simp: least_of_def)

lemma least_of_Min: "xs \<noteq> [] \<Longrightarrow> least_of xs = Min (set xs)"
  using fold_min_Min [of "tl xs" "hd xs"] by (cases xs) (auto simp: least_of_def)

lemma pick_node_in: "ready \<noteq> [] \<Longrightarrow> pick_node tm prev ready \<in> set ready"
proof (cases prev)
  case None
  assume "ready \<noteq> []"
  with None show ?thesis by (simp add: pick_node_def least_of_in)
next
  case (Some p)
  assume ne: "ready \<noteq> []"
  let ?pref = "filter (\<lambda>n. CanExecuteParallel (usageList (tm p)) (usageList (tm n))) ready"
  show ?thesis
  proof (cases "?pref = []")
    case True
    with Some ne show ?thesis by (simp add: pick_node_def least_of_in)
  next
    case False
    then have "least_of ?pref \<in> set ?pref" by (rule least_of_in)
    with Some False show ?thesis by (simp add: pick_node_def)
  qed
qed

lemma set_ready_nodes:
  "set (ready_nodes es remaining) =
     {n \<in> set remaining. \<forall>a. (a, n) \<in> set es \<longrightarrow> a \<notin> set remaining}"
  by (auto simp: ready_nodes_def list_ex_iff)

lemma schedule_loop_unfold:
  "schedule_loop es tm remaining prev =
     (if ready_nodes es remaining = [] then []
      else pick_node tm prev (ready_nodes es remaining) #
           schedule_loop es tm
             (removeAll (pick_node tm prev (ready_nodes es remaining)) remaining)
             (Some (pick_node tm prev (ready_nodes es remaining))))"
  by (subst schedule_loop.simps) (simp add: Let_def)

lemma schedule_loop_subset: "set (schedule_loop es tm remaining prev) \<subseteq> set remaining"
proof (induction es tm remaining prev rule: schedule_loop.induct)
  case (1 es tm remaining prev)
  show ?case
  proof (cases "ready_nodes es remaining = []")
    case True
    then show ?thesis by (subst schedule_loop_unfold) simp
  next
    case False
    let ?n = "pick_node tm prev (ready_nodes es remaining)"
    have "?n \<in> set (ready_nodes es remaining)" using False by (rule pick_node_in)
    then have n: "?n \<in> set remaining" by (simp add: set_ready_nodes)
    have "set (schedule_loop es tm (removeAll ?n remaining) (Some ?n)) \<subseteq>
          set (removeAll ?n remaining)"
      using False by (intro "1.IH") simp_all
    with n False show ?thesis by (subst schedule_loop_unfold) auto
  qed
qed

lemma schedule_loop_distinct: "distinct (schedule_loop es tm remaining prev)"
proof (induction es tm remaining prev rule: schedule_loop.induct)
  case (1 es tm remaining prev)
  show ?case
  proof (cases "ready_nodes es remaining = []")
    case True
    then show ?thesis by (subst schedule_loop_unfold) simp
  next
    case False
    let ?n = "pick_node tm prev (ready_nodes es remaining)"
    have d: "distinct (schedule_loop es tm (removeAll ?n remaining) (Some ?n))"
      using False by (intro "1.IH") simp_all
    have "?n \<notin> set (schedule_loop es tm (removeAll ?n remaining) (Some ?n))"
      using schedule_loop_subset [of es tm "removeAll ?n remaining" "Some ?n"] by auto
    with d False show ?thesis by (subst schedule_loop_unfold) simp
  qed
qed

lemma ready_exists:
  assumes acyc: "acyclic (set es)" and ne: "remaining \<noteq> []"
  shows "ready_nodes es remaining \<noteq> []"
proof -
  have "wf (set es)"
    using acyc by (simp add: finite_acyclic_wf)
  moreover from ne obtain x where "x \<in> set remaining" by (cases remaining) auto
  ultimately obtain z where z: "z \<in> set remaining"
    and min: "\<And>y. (y, z) \<in> set es \<Longrightarrow> y \<notin> set remaining"
    by (rule wfE_min) blast
  then have "z \<in> set (ready_nodes es remaining)"
    by (simp add: set_ready_nodes)
  then show ?thesis by auto
qed

lemma schedule_loop_complete:
  "acyclic (set es) \<Longrightarrow> set (schedule_loop es tm remaining prev) = set remaining"
proof (induction es tm remaining prev rule: schedule_loop.induct)
  case (1 es tm remaining prev)
  show ?case
  proof (cases "ready_nodes es remaining = []")
    case True
    with "1.prems" have "remaining = []" using ready_exists by blast
    with True show ?thesis by (subst schedule_loop_unfold) simp
  next
    case False
    let ?n = "pick_node tm prev (ready_nodes es remaining)"
    have "?n \<in> set (ready_nodes es remaining)" using False by (rule pick_node_in)
    then have n: "?n \<in> set remaining" by (simp add: set_ready_nodes)
    have "set (schedule_loop es tm (removeAll ?n remaining) (Some ?n)) =
          set (removeAll ?n remaining)"
      using False "1.prems" by (intro "1.IH") simp_all
    with n False show ?thesis by (subst schedule_loop_unfold) auto
  qed
qed

lemma schedule_loop_order:
  "(a, b) \<in> set es \<Longrightarrow> a \<in> set remaining \<Longrightarrow>
   b \<in> set (schedule_loop es tm remaining prev) \<Longrightarrow>
   precedes a b (schedule_loop es tm remaining prev)"
proof (induction es tm remaining prev rule: schedule_loop.induct)
  case (1 es tm remaining prev)
  show ?case
  proof (cases "ready_nodes es remaining = []")
    case True
    with "1.prems"(3) show ?thesis by (subst (asm) schedule_loop_unfold) simp
  next
    case False
    let ?n = "pick_node tm prev (ready_nodes es remaining)"
    let ?rest = "schedule_loop es tm (removeAll ?n remaining) (Some ?n)"
    have unfold: "schedule_loop es tm remaining prev = ?n # ?rest"
      using False by (subst schedule_loop_unfold) simp
    have "?n \<in> set (ready_nodes es remaining)" using False by (rule pick_node_in)
    then have ready: "\<forall>c. (c, ?n) \<in> set es \<longrightarrow> c \<notin> set remaining"
      by (simp add: set_ready_nodes)
    with "1.prems"(1,2) have bn: "b \<noteq> ?n" by blast
    with "1.prems"(3) unfold have b: "b \<in> set ?rest" by simp
    show ?thesis
    proof (cases "a = ?n")
      case True
      with b unfold show ?thesis by simp
    next
      case an: False
      with "1.prems"(2) have "a \<in> set (removeAll ?n remaining)" by simp
      with "1.prems"(1) b have "precedes a b ?rest"
        using False by (intro "1.IH") simp_all
      with an unfold show ?thesis by simp
    qed
  qed
qed

lemma snd_assemble_Cons:
  "snd (assemble S (t # ts)) =
     map Transition (InjectBarriers S (usageList t)) # commandList t #
     snd (assemble (UpdateResourceStates S (usageList t)) ts)"
  by (simp add: Let_def case_prod_beta)

lemma fst_assemble_Cons:
  "fst (assemble S (t # ts)) = fst (assemble (UpdateResourceStates S (usageList t)) ts)"
  by (simp add: Let_def case_prod_beta)

lemma length_assemble: "length (snd (assemble S ts)) = 2 * length ts"
proof (induction ts arbitrary: S)
  case Nil
  show ?case by simp
next
  case (Cons t ts)
  then show ?case by (simp add: snd_assemble_Cons del: assemble.simps)
qed

lemma assemble_command_lists:
  "i < length ts \<Longrightarrow> snd (assemble S ts) ! (2 * i + 1) = commandList (ts ! i)"
proof (induction ts arbitrary: S i)
  case Nil
  then show ?case by simp
next
  case (Cons t ts)
  show ?case
  proof (cases i)
    case 0
    then show ?thesis by (simp add: snd_assemble_Cons del: assemble.simps)
  next
    case (Suc j)
    with Cons.prems have "j < length ts" by simp
    then have "snd (assemble (UpdateResourceStates S (usageList t)) ts) ! (2 * j + 1) =
               commandList (ts ! j)"
      by (rule Cons.IH)
    with Suc show ?thesis by (simp add: snd_assemble_Cons del: assemble.simps)
  qed
qed

text \<open>
  Claim C4. For an acyclic edge set the schedule contains every node of the pipeline
  exactly once, and for every edge from \<open>a\<close> to \<open>b\<close> between nodes of the pipeline \<open>a\<close>
  comes before \<open>b\<close> in it: the schedule is a topological order. The submission assembled
  from the schedule holds, after each barrier batch, the command list of the task at the
  same position of the schedule, so the command lists appear in schedule order.
\<close>

theorem MakeSchedule_topological:
  assumes "acyclic (set es)"
  shows "set (MakeSchedule ns es tm) = set ns \<and>
         distinct (MakeSchedule ns es tm) \<and>
         (\<forall>a b. (a, b) \<in> set es \<and> a \<in> set ns \<and> b \<in> set ns \<longrightarrow>
            precedes a b (MakeSchedule ns es tm)) \<and>
         (\<forall>S i. i < length (MakeSchedule ns es tm) \<longrightarrow>
            snd (assemble S (map tm (MakeSchedule ns es tm))) ! (2 * i + 1) =
              commandList (tm (MakeSchedule ns es tm ! i)))"
proof (intro conjI allI impI)
  show complete: "set (MakeSchedule ns es tm) = set ns"
    using assms by (simp add: MakeSchedule_def schedule_loop_complete)
  show "distinct (MakeSchedule ns es tm)"
    by (simp add: MakeSchedule_def schedule_loop_distinct)
  show "precedes a b (MakeSchedule ns es tm)"
    if "(a, b) \<in> set es \<and> a \<in> set ns \<and> b \<in> set ns" for a b
    using that complete unfolding MakeSchedule_def
    by (intro schedule_loop_order) simp_all
  show "snd (assemble S (map tm (MakeSchedule ns es tm))) ! (2 * i + 1) =
          commandList (tm (MakeSchedule ns es tm ! i))"
    if "i < length (MakeSchedule ns es tm)" for S i
    using that assemble_command_lists [of i "map tm (MakeSchedule ns es tm)" S] by simp
qed

lemma diamond_acyclic: "acyclic (set diamond_arcs)"
proof (rule acyclicI_order [where f = "\<lambda>n :: nat. 10 - n"])
  fix a b :: nat
  assume "(a, b) \<in> set diamond_arcs"
  then show "10 - b < 10 - a" by (auto simp: diamond_arcs_def)
qed

lemma diamond_schedule:
  "MakeSchedule diamond_nodes diamond_arcs diamond_task = [0, 2, 1, 3]"
  by (simp add: MakeSchedule_def schedule_loop.simps ready_nodes_def pick_node_def least_of_def
      diamond_nodes_def diamond_arcs_def diamond_task_def PtrLess_def PtrGreater_def Let_def)

text \<open>
  The theorem at a diamond: node 0 before nodes 1 and 2, both before node 3. After node
  0 the builder prefers node 2, whose usage list is compatible with that of node 0, to
  the lower-numbered node 1, which uses the same resource in another state.
\<close>

theorem MakeSchedule_topological_witness:
  "acyclic (set diamond_arcs) \<and>
   MakeSchedule diamond_nodes diamond_arcs diamond_task = [0, 2, 1, 3] \<and>
   precedes 0 1 (MakeSchedule diamond_nodes diamond_arcs diamond_task) \<and>
   precedes 0 2 (MakeSchedule diamond_nodes diamond_arcs diamond_task) \<and>
   precedes 1 3 (MakeSchedule diamond_nodes diamond_arcs diamond_task) \<and>
   precedes 2 3 (MakeSchedule diamond_nodes diamond_arcs diamond_task) \<and>
   snd (assemble fanout_table
          (map diamond_task (MakeSchedule diamond_nodes diamond_arcs diamond_task))) ! 3 =
     [TaskWork 2]"
proof -
  note top = MakeSchedule_topological [OF diamond_acyclic, of diamond_nodes diamond_task]
  have arcs: "(0, 1) \<in> set diamond_arcs \<and> 0 \<in> set diamond_nodes \<and> 1 \<in> set diamond_nodes"
    "(0, 2) \<in> set diamond_arcs \<and> 0 \<in> set diamond_nodes \<and> 2 \<in> set diamond_nodes"
    "(1, 3) \<in> set diamond_arcs \<and> 1 \<in> set diamond_nodes \<and> 3 \<in> set diamond_nodes"
    "(2, 3) \<in> set diamond_arcs \<and> 2 \<in> set diamond_nodes \<and> 3 \<in> set diamond_nodes"
    by (simp_all add: diamond_arcs_def diamond_nodes_def)
  from top arcs have p:
    "precedes 0 1 (MakeSchedule diamond_nodes diamond_arcs diamond_task)"
    "precedes 0 2 (MakeSchedule diamond_nodes diamond_arcs diamond_task)"
    "precedes 1 3 (MakeSchedule diamond_nodes diamond_arcs diamond_task)"
    "precedes 2 3 (MakeSchedule diamond_nodes diamond_arcs diamond_task)"
    by blast+
  have "(1::nat) < length (MakeSchedule diamond_nodes diamond_arcs diamond_task)"
    by (simp add: diamond_schedule)
  with top have "snd (assemble fanout_table
          (map diamond_task (MakeSchedule diamond_nodes diamond_arcs diamond_task))) ! (2 * 1 + 1) =
     commandList (diamond_task (MakeSchedule diamond_nodes diamond_arcs diamond_task ! 1))"
    by blast
  then have "snd (assemble fanout_table
          (map diamond_task (MakeSchedule diamond_nodes diamond_arcs diamond_task))) ! 3 =
     [TaskWork 2]"
    by (simp add: diamond_schedule diamond_task_def)
  with p diamond_acyclic diamond_schedule show ?thesis by simp
qed

lemma least_cong: "least_of xs = least_of ys" if "set xs = set ys" for xs ys :: "nat list"
proof (cases "xs = []")
  case True
  with that have "ys = []" by simp
  with True show ?thesis by simp
next
  case False
  with that have "ys \<noteq> []" by auto
  then have "least_of ys = Min (set ys)" by (rule least_of_Min)
  moreover from False have "least_of xs = Min (set xs)" by (rule least_of_Min)
  ultimately show ?thesis using that by simp
qed


lemma pick_node_set_cong:
  assumes "set ready = set ready'"
  shows "pick_node tm prev ready = pick_node tm prev ready'"
proof (cases prev)
  case None
  have "least_of ready = least_of ready'" using assms by (rule least_cong)
  with None show ?thesis by (simp add: pick_node_def)
next
  case (Some p)
  let ?P = "\<lambda>n. CanExecuteParallel (usageList (tm p)) (usageList (tm n))"
  have s: "set (filter ?P ready) = set (filter ?P ready')"
    using assms by simp
  show ?thesis
  proof (cases "filter ?P ready = []")
    case True
    with s have "filter ?P ready' = []" by (metis set_empty)
    moreover have "least_of ready = least_of ready'" using assms by (rule least_cong)
    ultimately show ?thesis using Some True by (simp add: pick_node_def)
  next
    case False
    with s have "filter ?P ready' \<noteq> []" by (metis set_empty)
    moreover from s have "least_of (filter ?P ready) = least_of (filter ?P ready')"
      by (rule least_cong)
    ultimately show ?thesis using Some False by (simp add: pick_node_def)
  qed
qed

lemma ready_nodes_set_cong:
  assumes "set es = set es'" and "set remaining = set remaining'"
  shows "set (ready_nodes es remaining) = set (ready_nodes es' remaining')"
  unfolding set_ready_nodes assms ..


lemma schedule_loop_set_cong:
  "set es = set es' \<Longrightarrow> set remaining = set remaining' \<Longrightarrow>
   schedule_loop es tm remaining prev = schedule_loop es' tm remaining' prev"
proof (induction es tm remaining prev arbitrary: remaining' rule: schedule_loop.induct)
  case (1 es tm remaining prev)
  have r: "set (ready_nodes es remaining) = set (ready_nodes es' remaining')"
    using "1.prems" by (rule ready_nodes_set_cong)
  show ?case
  proof (cases "ready_nodes es remaining = []")
    case True
    with r have "ready_nodes es' remaining' = []" by (metis set_empty)
    then have "schedule_loop es' tm remaining' prev = []"
      by (subst schedule_loop_unfold) simp
    moreover from True have "schedule_loop es tm remaining prev = []"
      by (subst schedule_loop_unfold) simp
    ultimately show ?thesis by simp
  next
    case False
    with r have ne': "ready_nodes es' remaining' \<noteq> []" by (metis set_empty)
    let ?n = "pick_node tm prev (ready_nodes es remaining)"
    have n: "pick_node tm prev (ready_nodes es' remaining') = ?n"
      using r by (rule pick_node_set_cong [symmetric])
    have rem: "set (removeAll ?n remaining) = set (removeAll ?n remaining')"
      unfolding set_removeAll "1.prems"(2) ..
    have "schedule_loop es tm (removeAll ?n remaining) (Some ?n) =
          schedule_loop es' tm (removeAll ?n remaining') (Some ?n)"
      using refl False refl "1.prems"(1) rem by (rule "1.IH")
    moreover have "schedule_loop es tm remaining prev =
        ?n # schedule_loop es tm (removeAll ?n remaining) (Some ?n)"
      using False by (subst schedule_loop_unfold) simp
    moreover have "schedule_loop es' tm remaining' prev =
        ?n # schedule_loop es' tm (removeAll ?n remaining') (Some ?n)"
      using ne' by (subst schedule_loop_unfold) (simp add: n)
    ultimately show ?thesis by simp
  qed
qed

lemma hd_MakeSchedule:
  assumes "ready_nodes es ns \<noteq> []"
  shows "hd (MakeSchedule ns es tm) = Min (set (ready_nodes es ns))"
  using assms unfolding MakeSchedule_def
  by (subst schedule_loop_unfold) (simp add: pick_node_def least_of_Min)

text \<open>
  Claim C5. The schedule is a function of the DAG's shape and the node identities: two
  descriptions of the same node set and edge set (in any order, with repetitions) over
  the same node-to-task map give the same task sequence, hence the same barrier batches
  and submission from the same state table. Ties are broken by node identifier: the
  first node emitted is the lowest-numbered ready node.
\<close>

theorem MakeSchedule_deterministic:
  assumes "set ns = set ns'" and "set es = set es'"
  shows "MakeSchedule ns es tm = MakeSchedule ns' es' tm \<and>
         assemble S (map tm (MakeSchedule ns es tm)) =
           assemble S (map tm (MakeSchedule ns' es' tm)) \<and>
         (ready_nodes es ns \<noteq> [] \<longrightarrow>
            hd (MakeSchedule ns es tm) = Min (set (ready_nodes es ns)))"
proof -
  have "MakeSchedule ns es tm = MakeSchedule ns' es' tm"
    unfolding MakeSchedule_def using assms(2,1) by (rule schedule_loop_set_cong)
  moreover from this have "assemble S (map tm (MakeSchedule ns es tm)) =
      assemble S (map tm (MakeSchedule ns' es' tm))"
    by (rule arg_cong)
  moreover have "ready_nodes es ns \<noteq> [] \<longrightarrow>
      hd (MakeSchedule ns es tm) = Min (set (ready_nodes es ns))"
    using hd_MakeSchedule by blast
  ultimately show ?thesis by (intro conjI)
qed

text \<open>The theorem at the diamond and a reordered description of it.\<close>

theorem MakeSchedule_deterministic_witness:
  "set diamond_nodes = set diamond_nodes_shuffled \<and>
   set diamond_arcs = set diamond_arcs_shuffled \<and>
   MakeSchedule diamond_nodes_shuffled diamond_arcs_shuffled diamond_task = [0, 2, 1, 3] \<and>
   assemble fanout_table
     (map diamond_task (MakeSchedule diamond_nodes diamond_arcs diamond_task)) =
   assemble fanout_table
     (map diamond_task (MakeSchedule diamond_nodes_shuffled diamond_arcs_shuffled diamond_task)) \<and>
   ready_nodes diamond_arcs diamond_nodes = [0] \<and>
   hd (MakeSchedule diamond_nodes diamond_arcs diamond_task) = 0"
proof -
  have n: "set diamond_nodes = set diamond_nodes_shuffled"
    by (auto simp: diamond_nodes_def diamond_nodes_shuffled_def)
  have a: "set diamond_arcs = set diamond_arcs_shuffled"
    by (auto simp: diamond_arcs_def diamond_arcs_shuffled_def)
  have r: "ready_nodes diamond_arcs diamond_nodes = [0]"
    by (simp add: ready_nodes_def diamond_arcs_def diamond_nodes_def)
  note det = MakeSchedule_deterministic [OF n a, of diamond_task fanout_table]
  from det have "ready_nodes diamond_arcs diamond_nodes \<noteq> [] \<longrightarrow>
      hd (MakeSchedule diamond_nodes diamond_arcs diamond_task) =
        Min (set (ready_nodes diamond_arcs diamond_nodes))"
    by (rule conjunct2 [THEN conjunct2])
  then have h: "hd (MakeSchedule diamond_nodes diamond_arcs diamond_task) = 0"
    by (simp add: r)
  from det have "MakeSchedule diamond_nodes diamond_arcs diamond_task =
      MakeSchedule diamond_nodes_shuffled diamond_arcs_shuffled diamond_task"
    by (rule conjunct1)
  then have s: "MakeSchedule diamond_nodes_shuffled diamond_arcs_shuffled diamond_task = [0, 2, 1, 3]"
    by (simp only: diamond_schedule)
  from det have e: "assemble fanout_table
     (map diamond_task (MakeSchedule diamond_nodes diamond_arcs diamond_task)) =
   assemble fanout_table
     (map diamond_task (MakeSchedule diamond_nodes_shuffled diamond_arcs_shuffled diamond_task))"
    by (rule conjunct2 [THEN conjunct1])
  from n a s e r h show ?thesis by (intro conjI)
qed

section \<open>Execute and the lifecycle operations\<close>








end
